theory Spec2Isabelle
  imports Main "HOL-Library.Word"
begin

section \<open>Data model\<close>

text \<open>
  A Go \<^verbatim>\<open>rune\<close> is a 32-bit integer. The transducers only compare runes for equality
  and convert them to strings, so no arithmetic on them is needed.
\<close>

type_synonym rune = "32 word"

definition asterisk :: rune where
  "asterisk = 42"

definition upward_arrow :: rune where
  "upward_arrow = 8593"

definition space :: rune where
  "space = 32"

definition RuneError :: rune where
  "RuneError = 65533"

text \<open>
  A Go string is kept as the sequence of code points that its UTF-8 bytes decode to.
  The conversions \<^verbatim>\<open>string(c)\<close> and \<^verbatim>\<open>string(lineimage)\<close> encode each rune, and a rune
  that is no Unicode scalar value (above U+10FFFF when read as unsigned, or a surrogate)
  is encoded as U+FFFD.
\<close>

type_synonym gostring = "rune list"

definition valid_rune :: "rune \<Rightarrow> bool" where
  "valid_rune c \<longleftrightarrow> c \<le> 1114111 \<and> \<not> (55296 \<le> c \<and> c \<le> 57343)"

definition string_of_rune :: "rune \<Rightarrow> gostring" where
  "string_of_rune c = [if valid_rune c then c else RuneError]"

definition string_of_runes :: "rune list \<Rightarrow> gostring" where
  "string_of_runes cs = concat (map string_of_rune cs)"

text \<open>
  A run of a transducer is the sequence of its channel operations, in program order:
  a receive that yields a value, a receive that reports the input closed, a send, the
  close of the output, and a run-time panic (an index out of range), which ends the run.
  The input is a finite sequence of values followed by the close of the input channel,
  and the output channel always finds a receiver, so no operation blocks for ever.
\<close>

datatype ('a, 'b) action = Recv 'a | RecvClosed | Send 'b | Close | Panic

fun is_input :: "('a, 'b) action \<Rightarrow> bool" where
  "is_input (Recv _) = True"
| "is_input RecvClosed = True"
| "is_input _ = False"

fun is_output :: "('a, 'b) action \<Rightarrow> bool" where
  "is_output (Send _) = True"
| "is_output Close = True"
| "is_output _ = False"

text \<open>The values a run sends, in order.\<close>

fun sent :: "('a, 'b) action list \<Rightarrow> 'b list" where
  "sent [] = []"
| "sent (Send v # tr) = v # sent tr"
| "sent (_ # tr) = sent tr"

text \<open>
  What a consumer ranging over the output channel of a run receives before the channel
  reports closed: the values sent up to the close. A producer that stops without closing
  (or panics) never lets the consumer finish: \<open>None\<close>.
\<close>

fun chan :: "('a, 'b) action list \<Rightarrow> 'b list option" where
  "chan [] = None"
| "chan (Send v # tr) = map_option ((#) v) (chan tr)"
| "chan (Close # tr) = Some []"
| "chan (Panic # tr) = None"
| "chan (_ # tr) = chan tr"

section \<open>The transducers\<close>

subsection \<open>COPY\<close>

fun S31_COPY :: "rune list \<Rightarrow> (rune, rune) action list" where
  "S31_COPY [] = [RecvClosed, Close]"
| "S31_COPY (c # west) = Recv c # Send c # S31_COPY west"

subsection \<open>SQUASH\<close>

text \<open>
  The strict variant compares \<^verbatim>\<open>string(c)\<close> with the string \<^verbatim>\<open>"*"\<close>; the two tests of
  each level are separate \<^verbatim>\<open>if\<close> statements on the same \<open>c\<close>. A receive that reports
  the input closed leaves the loop.
\<close>

fun S32_SQUASH :: "rune list \<Rightarrow> (rune, rune) action list" where
  "S32_SQUASH [] = [RecvClosed, Close]"
| "S32_SQUASH (c # west) =
     Recv c #
     (if string_of_rune c \<noteq> [asterisk] then [Send c] else []) @
     (if string_of_rune c = [asterisk] then
        (case west of
           [] \<Rightarrow> [RecvClosed, Close]
         | c' # west' \<Rightarrow>
             Recv c' #
             (if string_of_rune c' \<noteq> [asterisk] then [Send asterisk, Send c'] else []) @
             (if string_of_rune c' = [asterisk] then [Send upward_arrow] else []) @
             S32_SQUASH west')
      else S32_SQUASH west)"

fun S32_SQUASH_EX :: "rune list \<Rightarrow> (rune, rune) action list" where
  "S32_SQUASH_EX [] = [RecvClosed, Close]"
| "S32_SQUASH_EX (c # west) =
     Recv c #
     (if c \<noteq> asterisk then [Send c] else []) @
     (if c = asterisk then
        (case west of
           [] \<Rightarrow> [RecvClosed, Send asterisk, Close]
         | c' # west' \<Rightarrow>
             Recv c' #
             (if c' \<noteq> asterisk then [Send asterisk, Send c'] else []) @
             (if c' = asterisk then [Send upward_arrow] else []) @
             S32_SQUASH_EX west')
      else S32_SQUASH_EX west)"

subsection \<open>DISASSEMBLE\<close>

text \<open>The inner loop sends \<open>cardimage[i]\<close> for \<open>i\<close> from its start value up to the length.\<close>

function send_from :: "rune list \<Rightarrow> nat \<Rightarrow> (rune list, rune) action list" where
  "send_from cardimage i =
     (if i < length cardimage then Send (cardimage ! i) # send_from cardimage (i + 1)
      else [])"
  by pat_completeness auto
termination
  by (relation "measure (\<lambda>(cardimage, i). length cardimage - i)") auto

declare send_from.simps [simp del]

text \<open>
  \<open>cardimage\<close> lives across the iterations: every record is appended to it (cut to its
  first 80 elements when longer) and it is resliced to length 0 at the end of the
  iteration.
\<close>

fun DISASSEMBLE_loop :: "rune list \<Rightarrow> rune list list \<Rightarrow> (rune list, rune) action list" where
  "DISASSEMBLE_loop cardimage [] = [RecvClosed, Close]"
| "DISASSEMBLE_loop cardimage (tmp # cardfile) =
     (let cardimage1 =
            (if length tmp > 80 then cardimage @ take 80 tmp
             else cardimage @ take (length tmp) tmp)
      in Recv tmp # send_from cardimage1 0 @ Send space #
           DISASSEMBLE_loop (take 0 cardimage1) cardfile)"

definition S33_DISASSEMBLE :: "rune list list \<Rightarrow> (rune list, rune) action list" where
  "S33_DISASSEMBLE cardfile = DISASSEMBLE_loop [] cardfile"

subsection \<open>ASSEMBLE\<close>

text \<open>An indexed store into a slice panics when the index is not below the length.\<close>

definition store :: "rune list \<Rightarrow> nat \<Rightarrow> rune \<Rightarrow> rune list option" where
  "store a i v = (if i < length a then Some (a[i := v]) else None)"

text \<open>The padding loop \<^verbatim>\<open>for i <= 124 { lineimage[i] = ' '; i++ }\<close>.\<close>

function pad :: "rune list \<Rightarrow> nat \<Rightarrow> rune list option" where
  "pad lineimage i =
     (if i \<le> 124 then
        (case store lineimage i space of
           None \<Rightarrow> None
         | Some lineimage1 \<Rightarrow> pad lineimage1 (i + 1))
      else Some lineimage)"
  by pat_completeness auto
termination
  by (relation "measure (\<lambda>(lineimage, i). 125 - i)") auto

declare pad.simps [simp del]

fun ASSEMBLE_loop :: "rune list \<Rightarrow> nat \<Rightarrow> rune list \<Rightarrow> (rune, gostring) action list" where
  "ASSEMBLE_loop lineimage i [] =
     RecvClosed #
     (if i > 0 then
        (case pad lineimage i of
           None \<Rightarrow> [Panic]
         | Some lineimage1 \<Rightarrow> [Send (string_of_runes lineimage1), Close])
      else [Close])"
| "ASSEMBLE_loop lineimage i (c # X) =
     Recv c #
     (case store lineimage i c of
        None \<Rightarrow> [Panic]
      | Some lineimage1 \<Rightarrow>
          (let i1 = (if i \<le> 124 then i + 1 else i) in
           if i1 = 125 then
             (case store lineimage1 (i1 - 1) c of
                None \<Rightarrow> [Panic]
              | Some lineimage2 \<Rightarrow>
                  Send (string_of_runes lineimage2) # ASSEMBLE_loop lineimage2 0 X)
           else ASSEMBLE_loop lineimage1 i1 X))"

definition S34_ASSEMBLE :: "rune list \<Rightarrow> (rune, gostring) action list" where
  "S34_ASSEMBLE X = ASSEMBLE_loop (replicate 125 0) 0 X"

subsection \<open>Reformat and Conway's problem\<close>

text \<open>
  The three stages run concurrently, linked by two unbuffered channels, each with one
  producer and one consumer. Every stage is deterministic and a channel delivers in send
  order, so the stream a stage reads is the stream the stage before it sent up to its
  close; the pipeline is the composition of the stages. A stage whose producer never
  closes does not finish, and neither does the pipeline.
\<close>

definition S35_Reformat :: "rune list list \<Rightarrow> (rune, gostring) action list option" where
  "S35_Reformat cardfile =
     (case chan (S33_DISASSEMBLE cardfile) of
        None \<Rightarrow> None
      | Some west \<Rightarrow>
          (case chan (S31_COPY west) of
             None \<Rightarrow> None
           | Some east \<Rightarrow> Some (S34_ASSEMBLE east)))"

definition S36_ConwayProblem :: "rune list list \<Rightarrow> (rune, gostring) action list option" where
  "S36_ConwayProblem cardfile =
     (case chan (S33_DISASSEMBLE cardfile) of
        None \<Rightarrow> None
      | Some west \<Rightarrow>
          (case chan (S32_SQUASH_EX west) of
             None \<Rightarrow> None
           | Some east \<Rightarrow> Some (S34_ASSEMBLE east)))"

section \<open>Notions used to state the properties\<close>

text \<open>
  A run on the input \<open>S\<close> that reads all of \<open>S\<close>, in order, then sees the input
  closed; whose output operations are sends followed by one close; whose last operation
  is that close; and that does not panic.
\<close>

definition runs_to_close :: "'a list \<Rightarrow> ('a, 'b) action list \<Rightarrow> bool" where
  "runs_to_close S tr \<longleftrightarrow>
     filter is_input tr = map Recv S @ [RecvClosed]
     \<and> filter is_output tr = map Send (sent tr) @ [Close]
     \<and> last tr = Close
     \<and> Panic \<notin> set tr"

text \<open>The length of the run of asterisks that ends the input.\<close>

definition trailing_markers :: "rune list \<Rightarrow> nat" where
  "trailing_markers S = length (takeWhile (\<lambda>c. c = asterisk) (rev S))"

text \<open>A stream cut into consecutive lines of \<open>n\<close> elements, the last one possibly shorter.\<close>

function lines_of :: "nat \<Rightarrow> 'a list \<Rightarrow> 'a list list" where
  "lines_of n xs = (if n = 0 \<or> xs = [] then [] else take n xs # lines_of n (drop n xs))"
  by pat_completeness auto
termination
  by (relation "measure (\<lambda>(n, xs). length xs)") auto

declare lines_of.simps [simp del]

section \<open>COPY is the identity\<close>

lemma sent_map_Send [simp]: "sent (map Send xs @ tr) = xs @ sent tr"
  by (induction xs) simp_all

lemma sent_append [simp]: "sent (tr @ tr') = sent tr @ sent tr'"
  by (induction tr rule: sent.induct) simp_all

lemma chan_map_Send [simp]: "chan (map Send xs @ tr) = map_option ((@) xs) (chan tr)"
  by (induction xs) (simp_all add: option.map_comp comp_def option.map_ident)

lemma copy_trace:
  "S31_COPY west = concat (map (\<lambda>c. [Recv c, Send c]) west) @ [RecvClosed, Close]"
  by (induction west) simp_all

lemma copy_sent: "sent (S31_COPY west) = west"
  by (induction west) simp_all

lemma copy_outputs: "filter is_output (S31_COPY west) = map Send west @ [Close]"
  by (induction west) simp_all

lemma copy_inputs: "filter is_input (S31_COPY west) = map Recv west @ [RecvClosed]"
  by (induction west) simp_all

lemma copy_chan: "chan (S31_COPY west) = Some west"
  by (induction west) simp_all

text \<open>
  C8. For every finite input sequence, COPY sends exactly the input: each received
  element is sent unchanged right after it is received, in input order, and nothing else
  is sent.
\<close>

theorem S31_COPY_identity:
  "sent (S31_COPY west) = west
   \<and> S31_COPY west = concat (map (\<lambda>c. [Recv c, Send c]) west) @ [RecvClosed, Close]
   \<and> filter is_output (S31_COPY west) = map Send west @ [Close]"
  using copy_sent copy_trace copy_outputs by blast

section \<open>SQUASH\<close>

lemma string_of_rune_asterisk: "string_of_rune c = [asterisk] \<longleftrightarrow> c = asterisk"
  by (auto simp: string_of_rune_def asterisk_def valid_rune_def RuneError_def)

text \<open>The loop bodies, one equation per path through them.\<close>

lemma SQUASH_other:
  "c \<noteq> asterisk \<Longrightarrow> S32_SQUASH (c # west) = Recv c # Send c # S32_SQUASH west"
  by (simp add: string_of_rune_asterisk)

lemma SQUASH_last: "S32_SQUASH [asterisk] = [Recv asterisk, RecvClosed, Close]"
  by (simp add: string_of_rune_asterisk)

lemma SQUASH_pair:
  "S32_SQUASH (asterisk # asterisk # west) =
     Recv asterisk # Recv asterisk # Send upward_arrow # S32_SQUASH west"
  by (simp add: string_of_rune_asterisk)

lemma SQUASH_single:
  "c \<noteq> asterisk \<Longrightarrow> S32_SQUASH (asterisk # c # west) =
     Recv asterisk # Recv c # Send asterisk # Send c # S32_SQUASH west"
  by (simp add: string_of_rune_asterisk)

lemma SQUASH_EX_other:
  "c \<noteq> asterisk \<Longrightarrow> S32_SQUASH_EX (c # west) = Recv c # Send c # S32_SQUASH_EX west"
  by simp

lemma SQUASH_EX_last:
  "S32_SQUASH_EX [asterisk] = [Recv asterisk, RecvClosed, Send asterisk, Close]"
  by simp

lemma SQUASH_EX_pair:
  "S32_SQUASH_EX (asterisk # asterisk # west) =
     Recv asterisk # Recv asterisk # Send upward_arrow # S32_SQUASH_EX west"
  by simp

lemma SQUASH_EX_single:
  "c \<noteq> asterisk \<Longrightarrow> S32_SQUASH_EX (asterisk # c # west) =
     Recv asterisk # Recv c # Send asterisk # Send c # S32_SQUASH_EX west"
  by simp

text \<open>Induction along the paths of the loop: both variants consume the input the same way.\<close>

lemma squash_induct [case_names closed other last pair single]:
  assumes "P []"
    and "\<And>c west. c \<noteq> asterisk \<Longrightarrow> P west \<Longrightarrow> P (c # west)"
    and "P [asterisk]"
    and "\<And>west. P west \<Longrightarrow> P (asterisk # asterisk # west)"
    and "\<And>c west. c \<noteq> asterisk \<Longrightarrow> P west \<Longrightarrow> P (asterisk # c # west)"
  shows "P west"
proof (induction west rule: S32_SQUASH_EX.induct)
  case 1
  show ?case by (rule assms(1))
next
  case (2 c west)
  show ?case
  proof (cases "c = asterisk")
    case False
    with 2 assms(2) show ?thesis by simp
  next
    case True
    show ?thesis
    proof (cases west)
      case Nil
      with True assms(3) show ?thesis by simp
    next
      case (Cons c' west')
      with True 2(1) have "P west'" by simp
      with True Cons assms(4,5) show ?thesis by (cases "c' = asterisk") simp_all
    qed
  qed
qed

text \<open>
  After a prefix that is empty or ends in another character no asterisk is pending, so
  the rest of the input is treated as an input of its own.
\<close>

lemma sent_SQUASH_EX_append:
  "pre = [] \<or> last pre \<noteq> asterisk \<Longrightarrow>
     sent (S32_SQUASH_EX (pre @ rest)) = sent (S32_SQUASH_EX pre) @ sent (S32_SQUASH_EX rest)"
proof (induction pre rule: squash_induct)
  case closed
  show ?case by simp
next
  case (other c west)
  then show ?case
    by (cases "west = []") (simp_all add: SQUASH_EX_other del: S32_SQUASH_EX.simps(2))
next
  case last
  then show ?case by simp
next
  case (pair west)
  then show ?case
    by (cases "west = []") (simp_all add: SQUASH_EX_pair del: S32_SQUASH_EX.simps(2))
next
  case (single c west)
  then show ?case
    by (cases "west = []") (simp_all add: SQUASH_EX_single del: S32_SQUASH_EX.simps(2))
qed

lemma sent_SQUASH_append:
  "pre = [] \<or> last pre \<noteq> asterisk \<Longrightarrow>
     sent (S32_SQUASH (pre @ rest)) = sent (S32_SQUASH pre) @ sent (S32_SQUASH rest)"
proof (induction pre rule: squash_induct)
  case closed
  show ?case by simp
next
  case (other c west)
  then show ?case
    by (cases "west = []") (simp_all add: SQUASH_other del: S32_SQUASH.simps(2))
next
  case last
  then show ?case by simp
next
  case (pair west)
  then show ?case
    by (cases "west = []") (simp_all add: SQUASH_pair del: S32_SQUASH.simps(2))
next
  case (single c west)
  then show ?case
    by (cases "west = []") (simp_all add: SQUASH_single del: S32_SQUASH.simps(2))
qed

lemma sent_SQUASH_EX_pairs:
  "sent (S32_SQUASH_EX (replicate (2 * k) asterisk @ rest)) =
     replicate k upward_arrow @ sent (S32_SQUASH_EX rest)"
  by (induction k) (simp_all add: SQUASH_EX_pair del: S32_SQUASH_EX.simps(2))

lemma sent_SQUASH_pairs:
  "sent (S32_SQUASH (replicate (2 * k) asterisk @ rest)) =
     replicate k upward_arrow @ sent (S32_SQUASH rest)"
  by (induction k) (simp_all add: SQUASH_pair del: S32_SQUASH.simps(2))

lemma sent_SQUASH_EX_even_run:
  assumes "pre = [] \<or> last pre \<noteq> asterisk"
  shows "sent (S32_SQUASH_EX (pre @ replicate (2 * k) asterisk @ rest)) =
     sent (S32_SQUASH_EX pre) @ replicate k upward_arrow @ sent (S32_SQUASH_EX rest)"
  by (simp only: sent_SQUASH_EX_append [OF assms] sent_SQUASH_EX_pairs)

lemma sent_SQUASH_even_run:
  assumes "pre = [] \<or> last pre \<noteq> asterisk"
  shows "sent (S32_SQUASH (pre @ replicate (2 * k) asterisk @ rest)) =
     sent (S32_SQUASH pre) @ replicate k upward_arrow @ sent (S32_SQUASH rest)"
  by (simp only: sent_SQUASH_append [OF assms] sent_SQUASH_pairs)

lemma odd_run: "replicate (2 * k + 1) x @ ys = replicate (2 * k) x @ x # ys"
  by (simp add: replicate_append_same)

lemma sent_SQUASH_EX_odd_run:
  assumes "pre = [] \<or> last pre \<noteq> asterisk" and "v \<noteq> asterisk"
  shows "sent (S32_SQUASH_EX (pre @ replicate (2 * k + 1) asterisk @ v # rest)) =
     sent (S32_SQUASH_EX pre) @ replicate k upward_arrow @ [asterisk, v] @
     sent (S32_SQUASH_EX rest)"
proof -
  have "sent (S32_SQUASH_EX (asterisk # v # rest)) = asterisk # v # sent (S32_SQUASH_EX rest)"
    using assms(2) by (simp add: SQUASH_EX_single del: S32_SQUASH_EX.simps(2))
  then show ?thesis
    by (simp only: odd_run sent_SQUASH_EX_even_run [OF assms(1)]) simp
qed

lemma sent_SQUASH_odd_run:
  assumes "pre = [] \<or> last pre \<noteq> asterisk" and "v \<noteq> asterisk"
  shows "sent (S32_SQUASH (pre @ replicate (2 * k + 1) asterisk @ v # rest)) =
     sent (S32_SQUASH pre) @ replicate k upward_arrow @ [asterisk, v] @
     sent (S32_SQUASH rest)"
proof -
  have "sent (S32_SQUASH (asterisk # v # rest)) = asterisk # v # sent (S32_SQUASH rest)"
    using assms(2) by (simp add: SQUASH_single del: S32_SQUASH.simps(2))
  then show ?thesis
    by (simp only: odd_run sent_SQUASH_even_run [OF assms(1)]) simp
qed

lemma SQUASH_EX_a2b: "sent (S32_SQUASH_EX [97, 42, 42, 98]) = [97, 8593, 98]"
  by (simp add: asterisk_def upward_arrow_def)

lemma SQUASH_EX_a3b: "sent (S32_SQUASH_EX [97, 42, 42, 42, 98]) = [97, 8593, 42, 98]"
  by (simp add: asterisk_def upward_arrow_def)

lemma SQUASH_a2b: "sent (S32_SQUASH [97, 42, 42, 98]) = [97, 8593, 98]"
  by (simp add: asterisk_def upward_arrow_def string_of_rune_def valid_rune_def)

lemma SQUASH_a3b: "sent (S32_SQUASH [97, 42, 42, 42, 98]) = [97, 8593, 42, 98]"
  by (simp add: asterisk_def upward_arrow_def string_of_rune_def valid_rune_def)

text \<open>
  C1. In both variants of SQUASH, a maximal run of \<open>2k\<close> asterisks (one that starts the
  input or follows another character) contributes \<open>k\<close> upward arrows to the output, and
  a maximal run of \<open>2k + 1\<close> asterisks followed by another character \<open>v\<close> contributes
  \<open>k\<close> upward arrows, one asterisk and \<open>v\<close>; what comes before and after the run
  is squashed on its own. The inputs \<open>a**b\<close> and \<open>a***b\<close> give \<open>a\<up>b\<close> and \<open>a\<up>*b\<close>.
\<close>

theorem SQUASH_runs:
  assumes "pre = [] \<or> last pre \<noteq> asterisk" and "v \<noteq> asterisk"
  shows
   "sent (S32_SQUASH_EX (pre @ replicate (2 * k) asterisk @ rest)) =
      sent (S32_SQUASH_EX pre) @ replicate k upward_arrow @ sent (S32_SQUASH_EX rest)
    \<and> sent (S32_SQUASH_EX (pre @ replicate (2 * k + 1) asterisk @ v # rest)) =
      sent (S32_SQUASH_EX pre) @ replicate k upward_arrow @ [asterisk, v] @
      sent (S32_SQUASH_EX rest)
    \<and> sent (S32_SQUASH (pre @ replicate (2 * k) asterisk @ rest)) =
      sent (S32_SQUASH pre) @ replicate k upward_arrow @ sent (S32_SQUASH rest)
    \<and> sent (S32_SQUASH (pre @ replicate (2 * k + 1) asterisk @ v # rest)) =
      sent (S32_SQUASH pre) @ replicate k upward_arrow @ [asterisk, v] @
      sent (S32_SQUASH rest)
    \<and> sent (S32_SQUASH_EX [97, 42, 42, 98]) = [97, 8593, 98]
    \<and> sent (S32_SQUASH_EX [97, 42, 42, 42, 98]) = [97, 8593, 42, 98]
    \<and> sent (S32_SQUASH [97, 42, 42, 98]) = [97, 8593, 98]
    \<and> sent (S32_SQUASH [97, 42, 42, 42, 98]) = [97, 8593, 42, 98]"
  using sent_SQUASH_EX_even_run [OF assms(1)] sent_SQUASH_EX_odd_run [OF assms]
    sent_SQUASH_even_run [OF assms(1)] sent_SQUASH_odd_run [OF assms]
    SQUASH_EX_a2b SQUASH_EX_a3b SQUASH_a2b SQUASH_a3b
  by blast

theorem SQUASH_runs_witness:
  "([120, 42, 121 :: rune] = [] \<or> last [120, 42, 121] \<noteq> asterisk) \<and> (122::rune) \<noteq> asterisk
   \<and> sent (S32_SQUASH_EX ([120, 42, 121] @ replicate (2 * 2) asterisk @ [122, 42])) =
      sent (S32_SQUASH_EX [120, 42, 121]) @ replicate 2 upward_arrow @
      sent (S32_SQUASH_EX [122, 42])
   \<and> sent (S32_SQUASH ([120, 42, 121] @ replicate (2 * 2 + 1) asterisk @ 122 # [122, 42])) =
      sent (S32_SQUASH [120, 42, 121]) @ replicate 2 upward_arrow @ [asterisk, 122] @
      sent (S32_SQUASH [122, 42])"
proof -
  have h1: "[120, 42, 121 :: rune] = [] \<or> last [120, 42, 121] \<noteq> asterisk"
    by (simp add: asterisk_def)
  have h2: "(122::rune) \<noteq> asterisk"
    by (simp add: asterisk_def)
  show ?thesis
    using h1 h2 SQUASH_runs [OF h1 h2, of 2 "[122, 42]"] by blast
qed

subsection \<open>The two variants agree unless an asterisk is pending at the end\<close>

lemma trailing_markers_all:
  "\<forall>x\<in>set w. x = asterisk \<Longrightarrow> trailing_markers w = length w"
proof -
  assume "\<forall>x\<in>set w. x = asterisk"
  then have eq: "takeWhile (\<lambda>c. c = asterisk) (rev w) = rev w"
    by (intro takeWhile_eq_all_conv [THEN iffD2]) simp
  show ?thesis unfolding trailing_markers_def eq by simp
qed

lemma trailing_markers_Cons:
  "trailing_markers (c # w) =
     (if \<forall>x\<in>set w. x = asterisk then (if c = asterisk then Suc (length w) else length w)
      else trailing_markers w)"
proof (cases "\<forall>x\<in>set w. x = asterisk")
  case True
  then have "takeWhile (\<lambda>c. c = asterisk) (rev w @ [c]) = rev w @ takeWhile (\<lambda>c. c = asterisk) [c]"
    by (intro takeWhile_append2) simp
  with True show ?thesis by (simp add: trailing_markers_def)
next
  case False
  then obtain x where "x \<in> set (rev w)" "\<not> x = asterisk" by auto
  then have "takeWhile (\<lambda>c. c = asterisk) (rev w @ [c]) = takeWhile (\<lambda>c. c = asterisk) (rev w)"
    by (rule takeWhile_append1)
  with False show ?thesis by (auto simp add: trailing_markers_def)
qed

lemma trailing_markers_other:
  "c \<noteq> asterisk \<Longrightarrow> trailing_markers (c # w) = trailing_markers w"
  by (simp add: trailing_markers_Cons trailing_markers_all)

lemma trailing_markers_single:
  "c \<noteq> asterisk \<Longrightarrow> trailing_markers (asterisk # c # w) = trailing_markers w"
  by (simp add: trailing_markers_Cons trailing_markers_all)

lemma trailing_markers_pair:
  "even (trailing_markers (asterisk # asterisk # w)) = even (trailing_markers w)"
  by (simp add: trailing_markers_Cons trailing_markers_all)

lemma SQUASH_eq_SQUASH_EX:
  "even (trailing_markers S) \<Longrightarrow> S32_SQUASH S = S32_SQUASH_EX S"
proof (induction S rule: squash_induct)
  case closed
  show ?case by simp
next
  case (other c west)
  then show ?case
    by (simp add: SQUASH_other SQUASH_EX_other trailing_markers_other
        del: S32_SQUASH.simps(2) S32_SQUASH_EX.simps(2))
next
  case last
  then show ?case by (simp add: trailing_markers_def)
next
  case (pair west)
  then show ?case
    by (simp add: SQUASH_pair SQUASH_EX_pair trailing_markers_pair
        del: S32_SQUASH.simps(2) S32_SQUASH_EX.simps(2))
next
  case (single c west)
  then show ?case
    by (simp add: SQUASH_single SQUASH_EX_single trailing_markers_single
        del: S32_SQUASH.simps(2) S32_SQUASH_EX.simps(2))
qed

lemma SQUASH_neq_SQUASH_EX:
  "odd (trailing_markers S) \<Longrightarrow> sent (S32_SQUASH_EX S) = sent (S32_SQUASH S) @ [asterisk]"
proof (induction S rule: squash_induct)
  case closed
  then show ?case by (simp add: trailing_markers_def)
next
  case (other c west)
  then show ?case
    by (simp add: SQUASH_other SQUASH_EX_other trailing_markers_other
        del: S32_SQUASH.simps(2) S32_SQUASH_EX.simps(2))
next
  case last
  then show ?case by (simp only: SQUASH_last SQUASH_EX_last sent.simps append_Nil)
next
  case (pair west)
  then show ?case
    by (simp add: SQUASH_pair SQUASH_EX_pair trailing_markers_pair
        del: S32_SQUASH.simps(2) S32_SQUASH_EX.simps(2))
next
  case (single c west)
  then show ?case
    by (simp add: SQUASH_single SQUASH_EX_single trailing_markers_single
        del: S32_SQUASH.simps(2) S32_SQUASH_EX.simps(2))
qed

text \<open>
  C10. On every input whose final run of asterisks has even length (so also on inputs
  without asterisks and on the empty input) S32_SQUASH and S32_SQUASH_EX perform the
  same run, and so send the same output.
\<close>

theorem SQUASH_variants_agree:
  assumes "even (trailing_markers S)"
  shows "S32_SQUASH S = S32_SQUASH_EX S \<and> sent (S32_SQUASH S) = sent (S32_SQUASH_EX S)"
  using SQUASH_eq_SQUASH_EX [OF assms] by simp

theorem SQUASH_variants_agree_witness:
  "even (trailing_markers [42, 97, 42, 42, 42, 42])
   \<and> S32_SQUASH [42, 97, 42, 42, 42, 42] = S32_SQUASH_EX [42, 97, 42, 42, 42, 42]
   \<and> sent (S32_SQUASH_EX [42, 97, 42, 42, 42, 42]) = [42, 97, 8593, 8593]"
proof -
  have h: "even (trailing_markers [42, 97, 42, 42, 42, 42])"
    by (simp add: trailing_markers_def asterisk_def)
  have "sent (S32_SQUASH_EX [42, 97, 42, 42, 42, 42]) = [42, 97, 8593, 8593]"
    by (simp add: asterisk_def upward_arrow_def)
  with h SQUASH_variants_agree [OF h] show ?thesis by blast
qed

section \<open>Runs that end with one close\<close>

lemma sent_Sends [simp]: "sent (map Send vs) = vs"
  by (induction vs) simp_all

lemma inputs_Sends [simp]: "filter is_input (map Send vs @ tr) = filter is_input tr"
  by (induction vs) simp_all

lemma outputs_Sends [simp]: "filter is_output (map Send vs @ tr) = map Send vs @ filter is_output tr"
  by (induction vs) simp_all

lemma runs_to_close_closed: "runs_to_close [] (RecvClosed # map Send vs @ [Close])"
  by (auto simp add: runs_to_close_def)

lemma runs_to_close_nonempty: "runs_to_close S tr \<Longrightarrow> tr \<noteq> []"
  by (auto simp: runs_to_close_def)

lemma runs_to_close_Recv:
  assumes "runs_to_close S tr"
  shows "runs_to_close (c # S) (Recv c # map Send vs @ tr)"
proof -
  have ne: "tr \<noteq> []" using assms by (rule runs_to_close_nonempty)
  have "Panic \<notin> set (map Send vs :: ('a, 'b) action list)"
    by auto
  then show ?thesis
    using assms ne by (simp add: runs_to_close_def)
qed

lemma runs_to_close_Recv0: "runs_to_close S tr \<Longrightarrow> runs_to_close (c # S) (Recv c # tr)"
  using runs_to_close_Recv [of S tr c "[]"] by simp

subsection \<open>SQUASH\<close>

lemma SQUASH_EX_closes: "runs_to_close S (S32_SQUASH_EX S)"
proof (induction S rule: squash_induct)
  case closed
  show ?case using runs_to_close_closed [of "[]"] by simp
next
  case (other c west)
  then show ?case
    using runs_to_close_Recv [of west "S32_SQUASH_EX west" c "[c]"]
    by (simp add: SQUASH_EX_other del: S32_SQUASH_EX.simps(2))
next
  case last
  show ?case
    using runs_to_close_Recv0 [OF runs_to_close_closed [of "[asterisk]"], of asterisk]
    by (simp add: SQUASH_EX_last del: S32_SQUASH_EX.simps(2))
next
  case (pair west)
  then show ?case
    using runs_to_close_Recv0 [OF runs_to_close_Recv [of west "S32_SQUASH_EX west" asterisk
          "[upward_arrow]"], of asterisk]
    by (simp add: SQUASH_EX_pair del: S32_SQUASH_EX.simps(2))
next
  case (single c west)
  then show ?case
    using runs_to_close_Recv0 [OF runs_to_close_Recv [of west "S32_SQUASH_EX west" c
          "[asterisk, c]"], of asterisk]
    by (simp add: SQUASH_EX_single del: S32_SQUASH_EX.simps(2))
qed

lemma SQUASH_closes: "runs_to_close S (S32_SQUASH S)"
proof (induction S rule: squash_induct)
  case closed
  show ?case using runs_to_close_closed [of "[]"] by simp
next
  case (other c west)
  then show ?case
    using runs_to_close_Recv [of west "S32_SQUASH west" c "[c]"]
    by (simp add: SQUASH_other del: S32_SQUASH.simps(2))
next
  case last
  show ?case
    using runs_to_close_Recv0 [OF runs_to_close_closed [of "[]"], of asterisk]
    by (simp add: SQUASH_last del: S32_SQUASH.simps(2))
next
  case (pair west)
  then show ?case
    using runs_to_close_Recv0 [OF runs_to_close_Recv [of west "S32_SQUASH west" asterisk
          "[upward_arrow]"], of asterisk]
    by (simp add: SQUASH_pair del: S32_SQUASH.simps(2))
next
  case (single c west)
  then show ?case
    using runs_to_close_Recv0 [OF runs_to_close_Recv [of west "S32_SQUASH west" c
          "[asterisk, c]"], of asterisk]
    by (simp add: SQUASH_single del: S32_SQUASH.simps(2))
qed

text \<open>
  C4. When the input ends with an unpaired asterisk (an odd run of asterisks at the end),
  S32_SQUASH_EX sends that asterisk as its last value before it closes, and S32_SQUASH
  sends nothing for it. The input \<open>ab*\<close> gives \<open>ab*\<close> and \<open>ab\<close>.
\<close>

theorem SQUASH_dangling:
  assumes "pre = [] \<or> last pre \<noteq> asterisk"
  shows
   "sent (S32_SQUASH_EX (pre @ replicate (2 * k + 1) asterisk)) =
      sent (S32_SQUASH_EX pre) @ replicate k upward_arrow @ [asterisk]
    \<and> sent (S32_SQUASH (pre @ replicate (2 * k + 1) asterisk)) =
      sent (S32_SQUASH pre) @ replicate k upward_arrow
    \<and> filter is_output (S32_SQUASH_EX (pre @ replicate (2 * k + 1) asterisk)) =
      map Send (sent (S32_SQUASH_EX pre) @ replicate k upward_arrow) @ [Send asterisk, Close]
    \<and> filter is_output (S32_SQUASH (pre @ replicate (2 * k + 1) asterisk)) =
      map Send (sent (S32_SQUASH pre) @ replicate k upward_arrow) @ [Close]
    \<and> S32_SQUASH_EX [97, 98, 42] =
      [Recv 97, Send 97, Recv 98, Send 98, Recv 42, RecvClosed, Send 42, Close]
    \<and> S32_SQUASH [97, 98, 42] =
      [Recv 97, Send 97, Recv 98, Send 98, Recv 42, RecvClosed, Close]"
proof -
  have ex: "sent (S32_SQUASH_EX (pre @ replicate (2 * k + 1) asterisk)) =
      sent (S32_SQUASH_EX pre) @ replicate k upward_arrow @ [asterisk]"
    using sent_SQUASH_EX_even_run [OF assms, of k "[asterisk]"] odd_run [of k asterisk "[]"]
    by (simp del: S32_SQUASH_EX.simps(2) add: SQUASH_EX_last)
  have st: "sent (S32_SQUASH (pre @ replicate (2 * k + 1) asterisk)) =
      sent (S32_SQUASH pre) @ replicate k upward_arrow"
    using sent_SQUASH_even_run [OF assms, of k "[asterisk]"] odd_run [of k asterisk "[]"]
    by (simp del: S32_SQUASH.simps(2) add: SQUASH_last)
  have ex1: "S32_SQUASH_EX [97, 98, 42] =
      [Recv 97, Send 97, Recv 98, Send 98, Recv 42, RecvClosed, Send 42, Close]"
    by (simp add: asterisk_def)
  have st1: "S32_SQUASH [97, 98, 42] =
      [Recv 97, Send 97, Recv 98, Send 98, Recv 42, RecvClosed, Close]"
    by (simp add: asterisk_def string_of_rune_def valid_rune_def)
  have "runs_to_close (pre @ replicate (2 * k + 1) asterisk)
      (S32_SQUASH_EX (pre @ replicate (2 * k + 1) asterisk))"
    by (rule SQUASH_EX_closes)
  then have exo: "filter is_output (S32_SQUASH_EX (pre @ replicate (2 * k + 1) asterisk)) =
      map Send (sent (S32_SQUASH_EX pre) @ replicate k upward_arrow) @ [Send asterisk, Close]"
    by (simp only: runs_to_close_def ex) simp
  have "runs_to_close (pre @ replicate (2 * k + 1) asterisk)
      (S32_SQUASH (pre @ replicate (2 * k + 1) asterisk))"
    by (rule SQUASH_closes)
  then have sto: "filter is_output (S32_SQUASH (pre @ replicate (2 * k + 1) asterisk)) =
      map Send (sent (S32_SQUASH pre) @ replicate k upward_arrow) @ [Close]"
    by (simp only: runs_to_close_def st)
  from ex st exo sto ex1 st1 show ?thesis by blast
qed

theorem SQUASH_dangling_witness:
  "([97, 98 :: rune] = [] \<or> last [97, 98] \<noteq> asterisk)
   \<and> sent (S32_SQUASH_EX ([97, 98] @ replicate (2 * 1 + 1) asterisk)) =
      sent (S32_SQUASH_EX [97, 98]) @ replicate 1 upward_arrow @ [asterisk]
   \<and> sent (S32_SQUASH ([97, 98] @ replicate (2 * 1 + 1) asterisk)) =
      sent (S32_SQUASH [97, 98]) @ replicate 1 upward_arrow"
proof -
  have h: "[97, 98 :: rune] = [] \<or> last [97, 98] \<noteq> asterisk"
    by (simp add: asterisk_def)
  show ?thesis
    using h SQUASH_dangling [OF h, of 1] by blast
qed

lemma COPY_closes: "runs_to_close S (S31_COPY S)"
proof (induction S)
  case Nil
  show ?case using runs_to_close_closed [of "[]"] by simp
next
  case (Cons c S)
  then show ?case using runs_to_close_Recv [of S "S31_COPY S" c "[c]"] by simp
qed

section \<open>DISASSEMBLE\<close>

lemma send_from_drop: "send_from cardimage i = map Send (drop i cardimage)"
proof (induction cardimage i rule: send_from.induct)
  case (1 cardimage i)
  show ?case
  proof (cases "i < length cardimage")
    case True
    with 1 show ?thesis
      by (subst send_from.simps) (simp add: Cons_nth_drop_Suc [symmetric])
  next
    case False
    then show ?thesis by (subst send_from.simps) simp
  qed
qed

text \<open>One iteration: the record, cut to 80 elements, is sent, then one space.\<close>

lemma DISASSEMBLE_loop_Cons:
  "DISASSEMBLE_loop cardimage (tmp # cardfile) =
     Recv tmp # map Send (cardimage @ take 80 tmp @ [space]) @ DISASSEMBLE_loop [] cardfile"
  by (simp add: send_from_drop Let_def)

lemma DISASSEMBLE_Nil: "S33_DISASSEMBLE [] = [RecvClosed, Close]"
  by (simp add: S33_DISASSEMBLE_def)

lemma DISASSEMBLE_Cons:
  "S33_DISASSEMBLE (tmp # cardfile) =
     Recv tmp # map Send (take 80 tmp @ [space]) @ S33_DISASSEMBLE cardfile"
  by (simp only: S33_DISASSEMBLE_def DISASSEMBLE_loop_Cons append_Nil)

lemma sent_DISASSEMBLE:
  "sent (S33_DISASSEMBLE cardfile) = concat (map (\<lambda>tmp. take 80 tmp @ [space]) cardfile)"
proof (induction cardfile)
  case Nil
  show ?case by (simp add: DISASSEMBLE_Nil)
next
  case (Cons tmp cardfile)
  then show ?case by (simp only: DISASSEMBLE_Cons sent.simps sent_map_Send) simp
qed

lemma chan_DISASSEMBLE:
  "chan (S33_DISASSEMBLE cardfile) = Some (concat (map (\<lambda>tmp. take 80 tmp @ [space]) cardfile))"
proof (induction cardfile)
  case Nil
  show ?case by (simp add: DISASSEMBLE_Nil)
next
  case (Cons tmp cardfile)
  then show ?case by (simp only: DISASSEMBLE_Cons chan.simps chan_map_Send) simp
qed

lemma DISASSEMBLE_closes: "runs_to_close cardfile (S33_DISASSEMBLE cardfile)"
proof (induction cardfile)
  case Nil
  show ?case using runs_to_close_closed [of "[]"] by (simp add: DISASSEMBLE_Nil)
next
  case (Cons tmp cardfile)
  then show ?case
    by (simp only: DISASSEMBLE_Cons runs_to_close_Recv)
qed

text \<open>
  C3. For a record \<open>r\<close> anywhere in the card file, DISASSEMBLE sends the elements of
  \<open>r\<close> in order and then one space when \<open>r\<close> has at most 80 elements, which makes
  \<open>length r + 1\<close> elements, and the first 80 elements of \<open>r\<close> and then one space when
  \<open>r\<close> is longer; nothing is added to a short record.
\<close>

theorem DISASSEMBLE_record:
  "sent (S33_DISASSEMBLE (before @ r # after)) =
     sent (S33_DISASSEMBLE before) @
     (if length r \<le> 80 then r @ [space] else take 80 r @ [space]) @
     sent (S33_DISASSEMBLE after)
   \<and> S33_DISASSEMBLE [r] =
     Recv r # map Send (if length r \<le> 80 then r @ [space] else take 80 r @ [space]) @
     [RecvClosed, Close]
   \<and> length (sent (S33_DISASSEMBLE [r])) = (if length r \<le> 80 then length r + 1 else 81)"
proof (cases "length r \<le> 80")
  case True
  then show ?thesis
    by (simp add: sent_DISASSEMBLE DISASSEMBLE_Cons DISASSEMBLE_Nil)
next
  case False
  then show ?thesis
    by (simp add: sent_DISASSEMBLE DISASSEMBLE_Cons DISASSEMBLE_Nil)
qed

section \<open>ASSEMBLE\<close>

lemma take_Suc_update:
  "i < length l \<Longrightarrow> take (Suc i) (l[i := c]) = take i l @ [c]"
  by (simp add: take_Suc_conv_app_nth)

lemma update_last_position:
  "length l = Suc i \<Longrightarrow> l[i := c] = take i l @ [c]"
  using take_Suc_update [of i l c] by simp

text \<open>The padding loop keeps what lies below \<open>i\<close> and fills the rest with spaces.\<close>

lemma pad_fills:
  "length lineimage = 125 \<Longrightarrow> i \<le> 125 \<Longrightarrow>
     pad lineimage i = Some (take i lineimage @ replicate (125 - i) space)"
proof (induction lineimage i rule: pad.induct)
  case (1 lineimage i)
  show ?case
  proof (cases "i \<le> 124")
    case True
    then have st: "store lineimage i space = Some (lineimage[i := space])"
      using "1.prems" by (simp add: store_def)
    have "pad (lineimage[i := space]) (i + 1) =
        Some (take (i + 1) (lineimage[i := space]) @ replicate (125 - (i + 1)) space)"
      using True "1.prems" by (intro "1.IH" [OF True st]) simp_all
    moreover have "take (i + 1) (lineimage[i := space]) = take i lineimage @ [space]"
      using True "1.prems" by (simp add: take_Suc_update)
    moreover have "replicate (125 - i) space = space # replicate (125 - (i + 1)) space"
      using True by (simp add: Suc_diff_le flip: replicate_Suc)
    ultimately show ?thesis
      using True st by (subst pad.simps) simp
  next
    case False
    with "1.prems" have "i = 125" by simp
    with "1.prems" show ?thesis by (subst pad.simps) simp
  qed
qed

text \<open>While the line does not fill, elements are only stored.\<close>

lemma ASSEMBLE_loop_short:
  "length lineimage = 125 \<Longrightarrow> i + length X < 125 \<Longrightarrow>
     ASSEMBLE_loop lineimage i X =
       map Recv X @ RecvClosed #
       (if 0 < i + length X
        then [Send (string_of_runes
                (take i lineimage @ X @ replicate (125 - (i + length X)) space)), Close]
        else [Close])"
proof (induction X arbitrary: lineimage i)
  case Nil
  then show ?case by (simp add: pad_fills)
next
  case (Cons c X)
  have st: "store lineimage i c = Some (lineimage[i := c])"
    using Cons.prems by (simp add: store_def)
  have "ASSEMBLE_loop (lineimage[i := c]) (Suc i) X =
       map Recv X @ RecvClosed #
       (if 0 < Suc i + length X
        then [Send (string_of_runes
                (take (Suc i) (lineimage[i := c]) @ X @
                 replicate (125 - (Suc i + length X)) space)), Close]
        else [Close])"
    using Cons.prems by (intro Cons.IH) simp_all
  moreover have "take (Suc i) (lineimage[i := c]) = take i lineimage @ [c]"
    using Cons.prems by (simp add: take_Suc_update)
  ultimately show ?case
    using Cons.prems st by simp
qed

text \<open>
  The element that fills the line is stored at position 124 (twice) and the line is sent
  with it in the last place.
\<close>

lemma ASSEMBLE_loop_fill:
  "length lineimage = 125 \<Longrightarrow> i + length X = 125 \<Longrightarrow> X \<noteq> [] \<Longrightarrow>
     ASSEMBLE_loop lineimage i (X @ rest) =
       map Recv X @ Send (string_of_runes (take i lineimage @ X)) #
       ASSEMBLE_loop (take i lineimage @ X) 0 rest"
proof (induction X arbitrary: lineimage i)
  case Nil
  then show ?case by simp
next
  case (Cons c X)
  have st: "store lineimage i c = Some (lineimage[i := c])"
    using Cons.prems by (simp add: store_def)
  show ?case
  proof (cases "X = []")
    case True
    with Cons.prems have i: "i = 124" by simp
    have upd: "lineimage[124 := c] = take 124 lineimage @ [c]"
      using Cons.prems by (intro update_last_position) simp
    have "store (lineimage[124 := c]) 124 c = Some (lineimage[124 := c])"
      using Cons.prems by (simp add: store_def)
    with True i st upd show ?thesis by simp
  next
    case False
    have "ASSEMBLE_loop (lineimage[i := c]) (Suc i) (X @ rest) =
       map Recv X @ Send (string_of_runes (take (Suc i) (lineimage[i := c]) @ X)) #
       ASSEMBLE_loop (take (Suc i) (lineimage[i := c]) @ X) 0 rest"
      using Cons.prems False by (intro Cons.IH) simp_all
    moreover have "take (Suc i) (lineimage[i := c]) = take i lineimage @ [c]"
      using Cons.prems by (simp add: take_Suc_update)
    moreover have "Suc i \<noteq> 125" "i \<le> 124"
      using Cons.prems False by (cases X; simp)+
    ultimately show ?thesis
      using st by simp
  qed
qed

text \<open>What the buffer holds at and above \<open>i\<close> is never read.\<close>

lemma ASSEMBLE_loop_prefix:
  "length lineimage = 125 \<Longrightarrow> length lineimage' = 125 \<Longrightarrow> i < 125 \<Longrightarrow>
   take i lineimage = take i lineimage' \<Longrightarrow>
     ASSEMBLE_loop lineimage i X = ASSEMBLE_loop lineimage' i X"
proof (induction X arbitrary: lineimage lineimage' i)
  case Nil
  then show ?case by (simp add: pad_fills)
next
  case (Cons c X)
  have st: "store lineimage i c = Some (lineimage[i := c])"
    "store lineimage' i c = Some (lineimage'[i := c])"
    using Cons.prems by (simp_all add: store_def)
  have tk: "take (Suc i) (lineimage[i := c]) = take (Suc i) (lineimage'[i := c])"
    using Cons.prems by (simp add: take_Suc_update)
  show ?case
  proof (cases "i = 124")
    case True
    have "lineimage[124 := c] = take 124 lineimage @ [c]"
      "lineimage'[124 := c] = take 124 lineimage' @ [c]"
      using Cons.prems by (simp_all add: update_last_position)
    with Cons.prems True have same: "lineimage[124 := c] = lineimage'[124 := c]" by simp
    have "store (lineimage[124 := c]) 124 c = Some (lineimage[124 := c])"
      "store (lineimage'[124 := c]) 124 c = Some (lineimage'[124 := c])"
      using Cons.prems by (simp_all add: store_def)
    with True st same show ?thesis by simp
  next
    case False
    have "ASSEMBLE_loop (lineimage[i := c]) (Suc i) X = ASSEMBLE_loop (lineimage'[i := c]) (Suc i) X"
      using Cons.prems False tk by (intro Cons.IH) simp_all
    with False Cons.prems st show ?thesis by simp
  qed
qed

lemma ASSEMBLE_line:
  assumes "length X = 125"
  shows "S34_ASSEMBLE (X @ rest) = map Recv X @ Send (string_of_runes X) # S34_ASSEMBLE rest"
proof -
  have "X \<noteq> []" using assms by auto
  then have "ASSEMBLE_loop (replicate 125 0) 0 (X @ rest) =
      map Recv X @ Send (string_of_runes (take 0 (replicate 125 0) @ X)) #
      ASSEMBLE_loop (take 0 (replicate 125 0) @ X) 0 rest"
    using assms by (intro ASSEMBLE_loop_fill) simp_all
  moreover have "ASSEMBLE_loop X 0 rest = ASSEMBLE_loop (replicate 125 0) 0 rest"
    using assms by (intro ASSEMBLE_loop_prefix) simp_all
  ultimately show ?thesis by (simp add: S34_ASSEMBLE_def)
qed

lemma ASSEMBLE_rest:
  assumes "length X < 125"
  shows "S34_ASSEMBLE X =
     map Recv X @ RecvClosed #
     (if X \<noteq> [] then [Send (string_of_runes (X @ replicate (125 - length X) space)), Close]
      else [Close])"
  using assms ASSEMBLE_loop_short [of "replicate 125 0" 0 X]
  by (simp add: S34_ASSEMBLE_def)

lemma ASSEMBLE_lines:
  assumes "\<forall>l\<in>set ls. length l = 125"
  shows "S34_ASSEMBLE (concat ls @ rest) =
     concat (map (\<lambda>l. map Recv l @ [Send (string_of_runes l)]) ls) @ S34_ASSEMBLE rest"
  using assms
proof (induction ls)
  case Nil
  show ?case by simp
next
  case (Cons l ls)
  then have "S34_ASSEMBLE (l @ concat ls @ rest) =
      map Recv l @ Send (string_of_runes l) # S34_ASSEMBLE (concat ls @ rest)"
    by (intro ASSEMBLE_line) simp
  with Cons show ?case by simp
qed

lemma ASSEMBLE_closes: "runs_to_close X (S34_ASSEMBLE X)"
proof -
  have "length lineimage = 125 \<Longrightarrow> i < 125 \<Longrightarrow> runs_to_close X (ASSEMBLE_loop lineimage i X)"
    for lineimage i
  proof (induction X arbitrary: lineimage i)
    case Nil
    then show ?case
      using runs_to_close_closed [of "[]"]
        runs_to_close_closed [of "[string_of_runes (take i lineimage @ replicate (125 - i) space)]"]
      by (auto simp add: pad_fills)
  next
    case (Cons c X)
    have st: "store lineimage i c = Some (lineimage[i := c])"
      using Cons.prems by (simp add: store_def)
    show ?case
    proof (cases "i = 124")
      case True
      have st2: "store (lineimage[124 := c]) 124 c = Some (lineimage[124 := c])"
        using Cons.prems by (simp add: store_def)
      have "runs_to_close X (ASSEMBLE_loop (lineimage[124 := c]) 0 X)"
        using Cons.prems by (intro Cons.IH) simp_all
      then have "runs_to_close (c # X)
          (Recv c # map Send [string_of_runes (lineimage[124 := c])] @
           ASSEMBLE_loop (lineimage[124 := c]) 0 X)"
        by (rule runs_to_close_Recv)
      with True st st2 show ?thesis by simp
    next
      case False
      have "runs_to_close X (ASSEMBLE_loop (lineimage[i := c]) (Suc i) X)"
        using Cons.prems False by (intro Cons.IH) simp_all
      then have "runs_to_close (c # X) (Recv c # ASSEMBLE_loop (lineimage[i := c]) (Suc i) X)"
        by (rule runs_to_close_Recv0)
      with False Cons.prems st show ?thesis by simp
    qed
  qed
  then show ?thesis by (simp add: S34_ASSEMBLE_def)
qed

subsection \<open>The string of a line\<close>

lemma string_of_runes_Nil [simp]: "string_of_runes [] = []"
  by (simp add: string_of_runes_def)

lemma string_of_runes_Cons:
  "string_of_runes (c # cs) = (if valid_rune c then c else RuneError) # string_of_runes cs"
  by (simp add: string_of_runes_def string_of_rune_def)

lemma string_of_runes_append:
  "string_of_runes (xs @ ys) = string_of_runes xs @ string_of_runes ys"
  by (simp add: string_of_runes_def)

lemma length_string_of_runes [simp]: "length (string_of_runes cs) = length cs"
  by (induction cs) (simp_all add: string_of_runes_Cons)

lemma string_of_runes_valid: "\<forall>c\<in>set cs. valid_rune c \<Longrightarrow> string_of_runes cs = cs"
  by (induction cs) (simp_all add: string_of_runes_Cons)

lemma valid_rune_space: "valid_rune space"
  by (simp add: valid_rune_def space_def)

lemma string_of_runes_spaces: "string_of_runes (replicate n space) = replicate n space"
  by (simp add: string_of_runes_valid valid_rune_space)

lemma string_of_runes_eq_Nil [simp]: "string_of_runes cs = [] \<longleftrightarrow> cs = []"
  by (cases cs) (simp_all add: string_of_runes_Cons)

lemma last_string_of_runes:
  "cs \<noteq> [] \<Longrightarrow> last (string_of_runes cs) = (if valid_rune (last cs) then last cs else RuneError)"
  by (induction cs) (auto simp add: string_of_runes_Cons)

lemma sent_Recvs [simp]: "sent (map Recv xs) = []"
  by (induction xs) simp_all

lemma sent_replicate_Recv [simp]: "sent (replicate n (Recv x)) = []"
  using sent_Recvs [of "replicate n x"] by simp

lemma sent_lines:
  "sent (concat (map (\<lambda>l. map Recv l @ [Send (f l)]) ls) @ tr) = map f ls @ sent tr"
  by (induction ls) simp_all

lemma valid_RuneError: "valid_rune RuneError"
  by (simp add: valid_rune_def RuneError_def)

lemma string_of_runes_all_valid: "\<forall>c\<in>set (string_of_runes cs). valid_rune c"
  by (induction cs) (simp_all add: string_of_runes_Cons valid_RuneError)

lemma string_of_runes_invalid:
  "c \<in> set cs \<Longrightarrow> \<not> valid_rune c \<Longrightarrow> string_of_runes cs \<noteq> cs"
  using string_of_runes_all_valid [of cs] by auto

text \<open>The rune \<open>-1\<close>, read as unsigned, is above U+10FFFF.\<close>

lemma invalid_rune_minus_one: "\<not> valid_rune 4294967295"
  by (simp add: valid_rune_def word_le_nat_alt)

lemma string_of_runes_ends_invalid:
  "string_of_runes (replicate n 97 @ [4294967295]) = replicate n 97 @ [65533]"
proof -
  have "valid_rune 97"
    by (simp add: valid_rune_def)
  then have "string_of_runes (replicate n 97) = replicate n 97"
    by (intro string_of_runes_valid) simp
  then show ?thesis
    by (simp add: string_of_runes_append string_of_runes_Cons invalid_rune_minus_one
        RuneError_def)
qed

lemma ASSEMBLE_exact_line:
  assumes "length X = 125"
  shows "sent (S34_ASSEMBLE X) = [string_of_runes X]"
proof -
  have "S34_ASSEMBLE (X @ []) = map Recv X @ Send (string_of_runes X) # S34_ASSEMBLE []"
    using assms by (rule ASSEMBLE_line)
  moreover have "S34_ASSEMBLE [] = [RecvClosed, Close]"
    using ASSEMBLE_rest [of "[]"] by simp
  ultimately show ?thesis by simp
qed

text \<open>
  C2. When the element that fills a line is received, the line is sent at once and that
  element is its last: a line is the string of the 125 elements received for it. An
  input of exactly 125 elements gives one line, the string of these elements, without
  padding, and nothing else is sent before the close. The string has one code point per
  element: the element itself, or U+FFFD for an element that is no valid code point.
\<close>

theorem ASSEMBLE_full_line:
  assumes "\<forall>l\<in>set ls. length l = 125" and "length X = 125"
  shows
   "S34_ASSEMBLE (concat ls @ X @ rest) =
      concat (map (\<lambda>l. map Recv l @ [Send (string_of_runes l)]) ls) @
      map Recv X @ Send (string_of_runes X) # S34_ASSEMBLE rest
    \<and> last (string_of_runes X) = (if valid_rune (last X) then last X else RuneError)
    \<and> length (string_of_runes X) = 125
    \<and> S34_ASSEMBLE X = map Recv X @ [Send (string_of_runes X), RecvClosed, Close]
    \<and> sent (S34_ASSEMBLE X) = [string_of_runes X]
    \<and> ((\<forall>c\<in>set X. valid_rune c) \<longrightarrow> sent (S34_ASSEMBLE X) = [X])"
proof -
  have one: "S34_ASSEMBLE (X @ tr) = map Recv X @ Send (string_of_runes X) # S34_ASSEMBLE tr"
    for tr
    using assms(2) by (rule ASSEMBLE_line)
  have closed: "S34_ASSEMBLE [] = [RecvClosed, Close]"
    using ASSEMBLE_rest [of "[]"] by simp
  have a: "S34_ASSEMBLE (concat ls @ X @ rest) =
      concat (map (\<lambda>l. map Recv l @ [Send (string_of_runes l)]) ls) @
      map Recv X @ Send (string_of_runes X) # S34_ASSEMBLE rest"
    by (simp only: ASSEMBLE_lines [OF assms(1)] one)
  have "X \<noteq> []" using assms(2) by auto
  then have b: "last (string_of_runes X) = (if valid_rune (last X) then last X else RuneError)"
    by (rule last_string_of_runes)
  have c: "length (string_of_runes X) = 125"
    using assms(2) by simp
  have d: "S34_ASSEMBLE X = map Recv X @ [Send (string_of_runes X), RecvClosed, Close]"
    using one [of "[]"] closed by simp
  have e: "sent (S34_ASSEMBLE X) = [string_of_runes X]"
    by (simp add: d)
  have f: "(\<forall>c\<in>set X. valid_rune c) \<longrightarrow> sent (S34_ASSEMBLE X) = [X]"
    by (simp add: e string_of_runes_valid)
  from a b c d e f show ?thesis by blast
qed

theorem ASSEMBLE_full_line_witness:
  "length (replicate 125 (98::rune)) = 125
   \<and> length (replicate 124 (97::rune) @ [122]) = 125
   \<and> S34_ASSEMBLE (replicate 124 97 @ [122]) =
      map Recv (replicate 124 97 @ [122]) @
      [Send (replicate 124 97 @ [122]), RecvClosed, Close]
   \<and> sent (S34_ASSEMBLE (concat [replicate 125 98] @ (replicate 124 97 @ [122]) @ [99])) =
      [replicate 125 98, replicate 124 97 @ [122], 99 # replicate 124 space]"
proof -
  have h1: "\<forall>l\<in>set [replicate 125 (98::rune)]. length l = 125"
    by simp
  have h2: "length (replicate 124 (97::rune) @ [122]) = 125"
    by simp
  have v: "\<forall>c\<in>set (replicate 124 (97::rune) @ [122]). valid_rune c"
    by (simp add: valid_rune_def)
  have v': "string_of_runes (replicate 125 (98::rune)) = replicate 125 98"
    by (rule string_of_runes_valid) (simp add: valid_rune_def)
  have r: "sent (S34_ASSEMBLE [99]) = [99 # replicate 124 space]"
    using ASSEMBLE_rest [of "[99]"]
    by (simp add: string_of_runes_append string_of_runes_spaces string_of_runes_Cons valid_rune_def)
  from ASSEMBLE_full_line [OF h1 h2, of "[99]"] h2 v v' r string_of_runes_valid [OF v]
  show ?thesis
    by (simp add: sent_lines)
qed

text \<open>
  The line is a string, so an element that is no valid code point does not appear in it:
  with \<open>-1\<close> as the 125th element the line ends in U+FFFD and differs from the
  125 elements received.
\<close>

theorem ASSEMBLE_full_line_counterexample:
  "length (replicate 124 (97::rune) @ [4294967295]) = 125
   \<and> sent (S34_ASSEMBLE (replicate 124 97 @ [4294967295])) = [replicate 124 97 @ [65533]]
   \<and> sent (S34_ASSEMBLE (replicate 124 97 @ [4294967295])) \<noteq>
      [replicate 124 97 @ [4294967295]]
   \<and> last (hd (sent (S34_ASSEMBLE (replicate 124 97 @ [4294967295])))) \<noteq>
      last (replicate 124 97 @ [4294967295])"
proof -
  have len: "length (replicate 124 (97::rune) @ [4294967295]) = 125"
    by simp
  have out: "sent (S34_ASSEMBLE (replicate 124 97 @ [4294967295])) =
      [replicate 124 97 @ [65533]]"
    using ASSEMBLE_exact_line [OF len] by (simp only: string_of_runes_ends_invalid)
  have ne: "[replicate 124 97 @ [65533]] \<noteq> [replicate 124 (97::rune) @ [4294967295]]"
    by simp
  have la: "last (hd [replicate 124 (97::rune) @ [65533]]) \<noteq>
      last (replicate 124 97 @ [4294967295])"
    by simp
  from len out ne la show ?thesis
    by (simp only: out) simp
qed

text \<open>
  C5. When the input closes after some full lines and a rest \<open>t\<close> of fewer than 125
  elements, ASSEMBLE has sent the full lines; if \<open>t\<close> is not empty it then fills the
  line up to 125 elements with spaces and sends it, and closes; if \<open>t\<close> is empty it
  sends nothing more and closes. An input of 130 elements gives the line of the first
  125 and a second line of the last 5 followed by 120 spaces. A line is a string: it
  holds each element that is a valid code point as it is and U+FFFD for any other, so
  the lines are the elements themselves when all of them are valid code points.
\<close>

theorem ASSEMBLE_last_line:
  assumes "\<forall>l\<in>set ls. length l = 125" and "length t < 125" and "length X = 130"
  shows
   "S34_ASSEMBLE (concat ls @ t) =
      concat (map (\<lambda>l. map Recv l @ [Send (string_of_runes l)]) ls) @
      map Recv t @ RecvClosed #
      (if t \<noteq> [] then [Send (string_of_runes t @ replicate (125 - length t) space), Close]
       else [Close])
    \<and> sent (S34_ASSEMBLE (concat ls @ t)) =
      map string_of_runes ls @
      (if t \<noteq> [] then [string_of_runes t @ replicate (125 - length t) space] else [])
    \<and> length (string_of_runes t @ replicate (125 - length t) space) = 125
    \<and> sent (S34_ASSEMBLE X) =
      [string_of_runes (take 125 X), string_of_runes (drop 125 X) @ replicate 120 space]
    \<and> length (drop 125 X) = 5
    \<and> ((\<forall>c\<in>set X. valid_rune c) \<longrightarrow>
         sent (S34_ASSEMBLE X) = [take 125 X, drop 125 X @ replicate 120 space])"
proof -
  have last_line: "S34_ASSEMBLE t' =
      map Recv t' @ RecvClosed #
      (if t' \<noteq> [] then [Send (string_of_runes t' @ replicate (125 - length t') space), Close]
       else [Close])" if "length t' < 125" for t'
    using ASSEMBLE_rest [OF that]
    by (simp add: string_of_runes_append string_of_runes_spaces)
  have a: "S34_ASSEMBLE (concat ls @ t) =
      concat (map (\<lambda>l. map Recv l @ [Send (string_of_runes l)]) ls) @
      map Recv t @ RecvClosed #
      (if t \<noteq> [] then [Send (string_of_runes t @ replicate (125 - length t) space), Close]
       else [Close])"
    by (simp only: ASSEMBLE_lines [OF assms(1)] last_line [OF assms(2)])
  have a': "sent (S34_ASSEMBLE (concat ls @ t)) =
      map string_of_runes ls @
      (if t \<noteq> [] then [string_of_runes t @ replicate (125 - length t) space] else [])"
    by (simp only: a sent_lines) simp
  have b: "length (string_of_runes t @ replicate (125 - length t) space) = 125"
    using assms(2) by simp
  have X: "X = take 125 X @ drop 125 X"
    by simp
  have len: "length (take 125 X) = 125" "length (drop 125 X) = 5"
    using assms(3) by simp_all
  have "S34_ASSEMBLE (take 125 X @ drop 125 X) =
      map Recv (take 125 X) @ Send (string_of_runes (take 125 X)) # S34_ASSEMBLE (drop 125 X)"
    using len(1) by (rule ASSEMBLE_line)
  moreover have "S34_ASSEMBLE (drop 125 X) =
      map Recv (drop 125 X) @
      [RecvClosed, Send (string_of_runes (drop 125 X) @ replicate 120 space), Close]"
    using last_line [of "drop 125 X"] len(2) by auto
  ultimately have c: "sent (S34_ASSEMBLE X) =
      [string_of_runes (take 125 X), string_of_runes (drop 125 X) @ replicate 120 space]"
    by (subst X) (simp del: append_take_drop_id)
  have d: "(\<forall>c\<in>set X. valid_rune c) \<longrightarrow>
      sent (S34_ASSEMBLE X) = [take 125 X, drop 125 X @ replicate 120 space]"
  proof
    assume v: "\<forall>c\<in>set X. valid_rune c"
    have "\<forall>c\<in>set (take 125 X). valid_rune c"
      using v by (blast dest: in_set_takeD)
    then have tk: "string_of_runes (take 125 X) = take 125 X"
      by (rule string_of_runes_valid)
    have "\<forall>c\<in>set (drop 125 X). valid_rune c"
      using v by (blast dest: in_set_dropD)
    then have dr: "string_of_runes (drop 125 X) = drop 125 X"
      by (rule string_of_runes_valid)
    show "sent (S34_ASSEMBLE X) = [take 125 X, drop 125 X @ replicate 120 space]"
      by (simp only: c tk dr)
  qed
  from a a' b c len(2) d show ?thesis by blast
qed

theorem ASSEMBLE_last_line_witness:
  "map length [replicate 125 (97::rune), replicate 125 98] = [125, 125]
   \<and> length [120, 121, 122 :: rune] < 125
   \<and> length (replicate 127 (97::rune) @ [120, 121, 122]) = 130
   \<and> sent (S34_ASSEMBLE (concat [replicate 125 97, replicate 125 98] @ [120, 121, 122])) =
      [replicate 125 97, replicate 125 98, [120, 121, 122] @ replicate 122 space]
   \<and> sent (S34_ASSEMBLE (replicate 127 97 @ [120, 121, 122])) =
      [replicate 125 97, (replicate 2 97 @ [120, 121, 122]) @ replicate 120 space]"
proof -
  have h1: "\<forall>l\<in>set [replicate 125 (97::rune), replicate 125 98]. length l = 125"
    by simp
  have h2: "length [120, 121, 122 :: rune] < 125"
    by simp
  have h3: "length (replicate 127 (97::rune) @ [120, 121, 122]) = 130"
    by simp
  have v: "string_of_runes (replicate n (97::rune)) = replicate n 97"
    "string_of_runes (replicate n (98::rune)) = replicate n 98"
    "string_of_runes [120, 121, 122] = [120, 121, 122]"
    "string_of_runes (replicate 2 97 @ [120, 121, 122]) = replicate 2 97 @ [120, 121, 122]" for n
    by (rule string_of_runes_valid, simp add: valid_rune_def)+
  have t: "take 125 (replicate 127 (97::rune) @ [120, 121, 122]) = replicate 125 97"
    "drop 125 (replicate 127 (97::rune) @ [120, 121, 122]) = replicate 2 97 @ [120, 121, 122]"
    by simp_all
  have a: "sent (S34_ASSEMBLE (concat [replicate 125 97, replicate 125 98] @ [120, 121, 122])) =
      map string_of_runes [replicate 125 97, replicate 125 98] @
      (if [120, 121, 122] \<noteq> ([] :: rune list)
       then [string_of_runes [120, 121, 122] @ replicate (125 - length [120, 121, 122 :: rune]) space]
       else [])"
    and c: "sent (S34_ASSEMBLE (replicate 127 97 @ [120, 121, 122])) =
      [string_of_runes (take 125 (replicate 127 97 @ [120, 121, 122])),
       string_of_runes (drop 125 (replicate 127 97 @ [120, 121, 122])) @ replicate 120 space]"
    using ASSEMBLE_last_line [OF h1 h2 h3] by blast+
  have a': "sent (S34_ASSEMBLE (concat [replicate 125 97, replicate 125 98] @ [120, 121, 122])) =
      [replicate 125 97, replicate 125 98, [120, 121, 122] @ replicate 122 space]"
    by (simp only: a) (simp add: v)
  have c': "sent (S34_ASSEMBLE (replicate 127 97 @ [120, 121, 122])) =
      [replicate 125 97, (replicate 2 97 @ [120, 121, 122]) @ replicate 120 space]"
    by (simp only: c t v)
  have "map length [replicate 125 (97::rune), replicate 125 98] = [125, 125]"
    by simp
  with h2 h3 a' c' show ?thesis by blast
qed

text \<open>
  With \<open>-1\<close> as the last of 130 elements the second line holds U+FFFD in its fifth
  place, so it is not the last 5 elements followed by 120 spaces.
\<close>

theorem ASSEMBLE_last_line_counterexample:
  "length (replicate 125 (97::rune) @ replicate 4 97 @ [4294967295]) = 130
   \<and> sent (S34_ASSEMBLE (replicate 125 97 @ replicate 4 97 @ [4294967295])) =
      [replicate 125 97, (replicate 4 97 @ [65533]) @ replicate 120 space]
   \<and> sent (S34_ASSEMBLE (replicate 125 97 @ replicate 4 97 @ [4294967295])) \<noteq>
      [take 125 (replicate 125 97 @ replicate 4 97 @ [4294967295]),
       drop 125 (replicate 125 97 @ replicate 4 97 @ [4294967295]) @ replicate 120 space]"
proof -
  let ?t = "replicate 4 (97::rune) @ [4294967295]"
  have len: "length (replicate 125 (97::rune) @ ?t) = 130"
    by simp
  have "valid_rune 97"
    by (simp add: valid_rune_def)
  then have v: "string_of_runes (replicate 125 97) = replicate 125 97"
    by (intro string_of_runes_valid) simp
  have first: "S34_ASSEMBLE (replicate 125 97 @ ?t) =
      map Recv (replicate 125 97) @ Send (string_of_runes (replicate 125 97)) # S34_ASSEMBLE ?t"
    by (rule ASSEMBLE_line) simp
  have "length ?t < 125"
    by simp
  then have "S34_ASSEMBLE ?t =
      map Recv ?t @ RecvClosed #
      (if ?t \<noteq> [] then [Send (string_of_runes (?t @ replicate (125 - length ?t) space)), Close]
       else [Close])"
    by (rule ASSEMBLE_rest)
  then have r1: "S34_ASSEMBLE ?t =
      map Recv ?t @ [RecvClosed, Send (string_of_runes (?t @ replicate 120 space)), Close]"
    by simp
  have str: "string_of_runes (?t @ replicate 120 space) =
      (replicate 4 97 @ [65533]) @ replicate 120 space"
    unfolding string_of_runes_append [of ?t "replicate 120 space"]
      string_of_runes_ends_invalid string_of_runes_spaces
    by (rule refl)
  have rest: "sent (S34_ASSEMBLE ?t) = [(replicate 4 97 @ [65533]) @ replicate 120 space]"
    by (simp only: r1 str sent_append sent_Recvs sent.simps append_Nil)
  have out: "sent (S34_ASSEMBLE (replicate 125 97 @ ?t)) =
      [replicate 125 97, (replicate 4 97 @ [65533]) @ replicate 120 space]"
    by (simp only: first v sent_append sent_Recvs sent.simps rest) simp
  have td: "take 125 (replicate 125 (97::rune) @ ?t) = replicate 125 97"
    "drop 125 (replicate 125 (97::rune) @ ?t) = ?t"
    by simp_all
  have ne: "[replicate 125 97, (replicate 4 97 @ [65533]) @ replicate 120 space] \<noteq>
      [replicate 125 (97::rune), ?t @ replicate 120 space]"
    by simp
  from len out ne show ?thesis
    by (simp only: out td) simp
qed

subsection \<open>Lines of a stream\<close>

lemma lines_of_Nil: "lines_of n [] = []"
  by (subst lines_of.simps) simp

lemma lines_of_step:
  "0 < n \<Longrightarrow> xs \<noteq> [] \<Longrightarrow> lines_of n xs = take n xs # lines_of n (drop n xs)"
  by (subst lines_of.simps) simp

lemma concat_lines_of: "0 < n \<Longrightarrow> concat (lines_of n xs) = xs"
proof (induction n xs rule: lines_of.induct)
  case (1 n xs)
  show ?case
  proof (cases "xs = []")
    case True
    then show ?thesis by (simp add: lines_of_Nil)
  next
    case False
    with "1.prems" have "concat (lines_of n (drop n xs)) = drop n xs"
      by (intro "1.IH") simp_all
    moreover have "lines_of n xs = take n xs # lines_of n (drop n xs)"
      using False "1.prems" by (intro lines_of_step) simp_all
    ultimately show ?thesis by simp
  qed
qed

lemma dvd_step: "(n::nat) dvd m \<Longrightarrow> 0 < m \<Longrightarrow> n \<le> m \<and> n dvd m - n"
  by (metis dvd_imp_le dvd_diff_nat dvd_refl)

lemma length_lines_of:
  "0 < n \<Longrightarrow> n dvd length xs \<Longrightarrow> \<forall>l\<in>set (lines_of n xs). length l = n"
proof (induction n xs rule: lines_of.induct)
  case (1 n xs)
  show ?case
  proof (cases "xs = []")
    case True
    then show ?thesis by (simp add: lines_of_Nil)
  next
    case False
    then have pos: "0 < length xs" by simp
    have le: "n \<le> length xs" and dv: "n dvd length xs - n"
      using dvd_step [OF "1.prems"(2) pos] by blast+
    have nz: "\<not> (n = 0 \<or> xs = [])"
      using False "1.prems"(1) by blast
    have dv': "n dvd length (drop n xs)"
      using dv by (simp only: length_drop)
    have IH: "\<forall>l\<in>set (lines_of n (drop n xs)). length l = n"
      using nz "1.prems"(1) dv' by (rule "1.IH")
    have step: "lines_of n xs = take n xs # lines_of n (drop n xs)"
      using "1.prems"(1) False by (rule lines_of_step)
    have "length (take n xs) = n"
      using le by simp
    with IH show ?thesis
      by (simp only: step set_simps ball_simps)
  qed
qed

lemma ASSEMBLE_whole_lines:
  assumes "125 dvd length X"
  shows "S34_ASSEMBLE X =
     concat (map (\<lambda>l. map Recv l @ [Send (string_of_runes l)]) (lines_of 125 X)) @
     [RecvClosed, Close]"
proof -
  have "\<forall>l\<in>set (lines_of 125 X). length l = 125"
    using assms by (intro length_lines_of) simp_all
  then have "S34_ASSEMBLE (concat (lines_of 125 X) @ []) =
     concat (map (\<lambda>l. map Recv l @ [Send (string_of_runes l)]) (lines_of 125 X)) @
     S34_ASSEMBLE []"
    by (rule ASSEMBLE_lines)
  moreover have "S34_ASSEMBLE [] = [RecvClosed, Close]"
    using ASSEMBLE_rest [of "[]"] by simp
  ultimately show ?thesis
    by (simp add: concat_lines_of)
qed

lemma concat_string_of_runes: "concat (map string_of_runes ls) = string_of_runes (concat ls)"
  by (induction ls) (simp_all add: string_of_runes_append)

text \<open>
  C6. For cards of exactly 80 elements each, DISASSEMBLE delivers the cards, each
  followed by a space, as one stream; when the length of that stream is a multiple of
  125, ASSEMBLE fed with it sends the stream cut into lines of 125 elements, each line
  the string of its elements, and nothing is padded: the lines, put together, are the
  string of the stream, which holds each element that is a valid code point as it is
  and U+FFFD for any other; they are the stream itself when all its elements are valid
  code points.
\<close>

theorem ASSEMBLE_DISASSEMBLE:
  assumes "\<forall>c\<in>set cards. length c = 80"
    and "stream = concat (map (\<lambda>c. c @ [space]) cards)"
    and "125 dvd length stream"
  shows
   "chan (S33_DISASSEMBLE cards) = Some stream
    \<and> sent (S34_ASSEMBLE stream) = map string_of_runes (lines_of 125 stream)
    \<and> concat (lines_of 125 stream) = stream
    \<and> (\<forall>l\<in>set (lines_of 125 stream). length l = 125)
    \<and> concat (sent (S34_ASSEMBLE stream)) = string_of_runes stream
    \<and> filter is_output (S34_ASSEMBLE stream) =
      map Send (map string_of_runes (lines_of 125 stream)) @ [Close]
    \<and> ((\<forall>c\<in>set stream. valid_rune c) \<longrightarrow>
         concat (sent (S34_ASSEMBLE stream)) = stream)"
proof -
  have cut: "map (\<lambda>tmp. take 80 tmp @ [space]) cards = map (\<lambda>c. c @ [space]) cards"
    using assms(1) by (intro map_cong) simp_all
  have a: "chan (S33_DISASSEMBLE cards) = Some stream"
    unfolding chan_DISASSEMBLE cut assms(2) by (rule refl)
  have b: "sent (S34_ASSEMBLE stream) = map string_of_runes (lines_of 125 stream)"
    using sent_lines [of string_of_runes "lines_of 125 stream" "[RecvClosed, Close]"]
    by (simp only: ASSEMBLE_whole_lines [OF assms(3)]) simp
  have c: "concat (lines_of 125 stream) = stream"
    by (simp add: concat_lines_of)
  have d: "\<forall>l\<in>set (lines_of 125 stream). length l = 125"
    using assms(3) by (intro length_lines_of) simp_all
  have e: "concat (sent (S34_ASSEMBLE stream)) = string_of_runes stream"
    by (simp only: b concat_string_of_runes c)
  have "runs_to_close stream (S34_ASSEMBLE stream)"
    by (rule ASSEMBLE_closes)
  then have f: "filter is_output (S34_ASSEMBLE stream) =
      map Send (map string_of_runes (lines_of 125 stream)) @ [Close]"
    by (simp add: runs_to_close_def b)
  have g: "(\<forall>c\<in>set stream. valid_rune c) \<longrightarrow>
      concat (sent (S34_ASSEMBLE stream)) = stream"
    by (simp add: e string_of_runes_valid)
  from a b c d e f g show ?thesis by blast
qed

theorem ASSEMBLE_DISASSEMBLE_witness:
  "length (replicate 80 (97::rune)) = 80
   \<and> 125 dvd length (concat (map (\<lambda>c. c @ [space]) (replicate 125 (replicate 80 (97::rune)))))
   \<and> chan (S33_DISASSEMBLE (replicate 125 (replicate 80 97))) =
      Some (concat (map (\<lambda>c. c @ [space]) (replicate 125 (replicate 80 97))))
   \<and> concat (sent (S34_ASSEMBLE
        (concat (map (\<lambda>c. c @ [space]) (replicate 125 (replicate 80 97)))))) =
      concat (map (\<lambda>c. c @ [space]) (replicate 125 (replicate 80 97)))"
proof -
  let ?cards = "replicate 125 (replicate 80 (97::rune))"
  let ?stream = "concat (map (\<lambda>c. c @ [space]) ?cards)"
  have h1: "\<forall>c\<in>set ?cards. length c = 80"
    by simp
  have h3: "125 dvd length ?stream"
    by (simp add: length_concat sum_list_replicate)
  have "\<forall>c\<in>set ?stream. valid_rune c"
    by (simp add: valid_rune_def space_def)
  then have v: "string_of_runes ?stream = ?stream"
    by (rule string_of_runes_valid)
  have c1: "chan (S33_DISASSEMBLE ?cards) = Some ?stream"
    and c5: "concat (sent (S34_ASSEMBLE ?stream)) = string_of_runes ?stream"
    using ASSEMBLE_DISASSEMBLE [OF h1 refl h3] by blast+
  have "length (replicate 80 (97::rune)) = 80"
    by simp
  with h3 c1 c5 [unfolded v] show ?thesis
    by blast
qed

text \<open>
  With 125 cards of 80 elements, the last card ending in \<open>-1\<close>, the lines sent do not
  put together to the stream of the cards with their separators: the place of \<open>-1\<close>
  holds U+FFFD.
\<close>

theorem ASSEMBLE_DISASSEMBLE_counterexample:
  "length (replicate 80 (97::rune)) = 80
   \<and> length (replicate 79 (97::rune) @ [4294967295]) = 80
   \<and> 125 dvd length (concat (map (\<lambda>c. c @ [space])
        (replicate 124 (replicate 80 97) @ [replicate 79 97 @ [4294967295]])))
   \<and> chan (S33_DISASSEMBLE (replicate 124 (replicate 80 97) @ [replicate 79 97 @ [4294967295]])) =
      Some (concat (map (\<lambda>c. c @ [space])
        (replicate 124 (replicate 80 97) @ [replicate 79 97 @ [4294967295]])))
   \<and> concat (sent (S34_ASSEMBLE (concat (map (\<lambda>c. c @ [space])
        (replicate 124 (replicate 80 97) @ [replicate 79 97 @ [4294967295]]))))) \<noteq>
      concat (map (\<lambda>c. c @ [space])
        (replicate 124 (replicate 80 97) @ [replicate 79 97 @ [4294967295]]))"
proof -
  let ?cards = "replicate 124 (replicate 80 (97::rune)) @ [replicate 79 97 @ [4294967295]]"
  let ?stream = "concat (map (\<lambda>c. c @ [space]) ?cards)"
  have l1: "length (replicate 80 (97::rune)) = 80"
    and l2: "length (replicate 79 (97::rune) @ [4294967295]) = 80"
    by simp_all
  have dv: "125 dvd length ?stream"
    by (simp add: length_concat sum_list_replicate)
  have "map (\<lambda>tmp. take 80 tmp @ [space]) ?cards = map (\<lambda>c. c @ [space]) ?cards"
    by simp
  then have ch: "chan (S33_DISASSEMBLE ?cards) = Some ?stream"
    by (simp only: chan_DISASSEMBLE)
  have "sent (S34_ASSEMBLE ?stream) = map string_of_runes (lines_of 125 ?stream)"
    using sent_lines [of string_of_runes "lines_of 125 ?stream" "[RecvClosed, Close]"]
    by (simp only: ASSEMBLE_whole_lines [OF dv]) simp
  moreover have "concat (lines_of 125 ?stream) = ?stream"
    by (rule concat_lines_of) simp
  ultimately have out: "concat (sent (S34_ASSEMBLE ?stream)) = string_of_runes ?stream"
    by (simp only: concat_string_of_runes)
  have "4294967295 \<in> set ?stream"
    by simp
  then have sne: "string_of_runes ?stream \<noteq> ?stream"
    using invalid_rune_minus_one by (rule string_of_runes_invalid)
  have ne: "concat (sent (S34_ASSEMBLE ?stream)) \<noteq> ?stream"
    unfolding out by (rule sne)
  from l1 l2 dv ch ne show ?thesis
    by blast
qed

section \<open>Reformat\<close>

lemma Reformat_card_run:
  assumes "length cardimage = 80"
  shows "S35_Reformat [cardimage] =
      Some (map Recv (cardimage @ [space]) @
            [RecvClosed, Send (string_of_runes cardimage @ [space] @ replicate 44 space), Close])"
proof -
  have west: "chan (S33_DISASSEMBLE [cardimage]) = Some (cardimage @ [space])"
    using assms by (simp add: chan_DISASSEMBLE)
  have east: "chan (S31_COPY (cardimage @ [space])) = Some (cardimage @ [space])"
    by (rule copy_chan)
  have "length (cardimage @ [space]) < 125"
    using assms by simp
  then have "S34_ASSEMBLE (cardimage @ [space]) =
      map Recv (cardimage @ [space]) @ RecvClosed #
      (if cardimage @ [space] \<noteq> []
       then [Send (string_of_runes ((cardimage @ [space]) @
                replicate (125 - length (cardimage @ [space])) space)), Close]
       else [Close])"
    by (rule ASSEMBLE_rest)
  moreover have "string_of_runes ((cardimage @ [space]) @ replicate 44 space) =
      string_of_runes cardimage @ [space] @ replicate 44 space"
    by (simp add: string_of_runes_append string_of_runes_Cons valid_rune_space
        string_of_runes_spaces)
  ultimately have line: "S34_ASSEMBLE (cardimage @ [space]) =
      map Recv (cardimage @ [space]) @
      [RecvClosed, Send (string_of_runes cardimage @ [space] @ replicate 44 space), Close]"
    using assms by simp
  show ?thesis
    by (simp only: S35_Reformat_def west east line option.case)
qed

text \<open>
  C7. Reformat, fed one card of 80 elements and then the end of the input, sends one
  line of 125 elements: the string of the 80 card elements, the separating space and 44
  more spaces; then it closes the line printer. The string of the card holds each
  element that is a valid code point as it is and U+FFFD for any other, so the line
  starts with the card elements themselves when all of them are valid code points.
\<close>

theorem Reformat_one_card:
  assumes "length cardimage = 80"
  shows
   "S35_Reformat [cardimage] =
      Some (map Recv (cardimage @ [space]) @
            [RecvClosed, Send (string_of_runes cardimage @ [space] @ replicate 44 space), Close])
    \<and> map_option sent (S35_Reformat [cardimage]) =
      Some [string_of_runes cardimage @ [space] @ replicate 44 space]
    \<and> length (string_of_runes cardimage @ [space] @ replicate 44 space) = 125
    \<and> ((\<forall>c\<in>set cardimage. valid_rune c) \<longrightarrow>
         map_option sent (S35_Reformat [cardimage]) =
         Some [cardimage @ [space] @ replicate 44 space])"
proof -
  have a: "S35_Reformat [cardimage] =
      Some (map Recv (cardimage @ [space]) @
            [RecvClosed, Send (string_of_runes cardimage @ [space] @ replicate 44 space), Close])"
    using assms by (rule Reformat_card_run)
  have b: "map_option sent (S35_Reformat [cardimage]) =
      Some [string_of_runes cardimage @ [space] @ replicate 44 space]"
    by (simp only: a) simp
  have c: "length (string_of_runes cardimage @ [space] @ replicate 44 space) = 125"
    using assms by simp
  have d: "(\<forall>c\<in>set cardimage. valid_rune c) \<longrightarrow>
      map_option sent (S35_Reformat [cardimage]) =
      Some [cardimage @ [space] @ replicate 44 space]"
    by (simp add: b string_of_runes_valid)
  from a b c d show ?thesis by blast
qed

theorem Reformat_one_card_witness:
  "length (replicate 79 (97::rune) @ [122]) = 80
   \<and> map_option sent (S35_Reformat [replicate 79 97 @ [122]]) =
      Some [(replicate 79 97 @ [122]) @ [space] @ replicate 44 space]"
proof -
  have h: "length (replicate 79 (97::rune) @ [122]) = 80"
    by simp
  have "\<forall>c\<in>set (replicate 79 (97::rune) @ [122]). valid_rune c"
    by (simp add: valid_rune_def)
  then have v: "string_of_runes (replicate 79 (97::rune) @ [122]) = replicate 79 97 @ [122]"
    by (rule string_of_runes_valid)
  have "map_option sent (S35_Reformat [replicate 79 97 @ [122]]) =
      Some [string_of_runes (replicate 79 97 @ [122]) @ [space] @ replicate 44 space]"
    using Reformat_one_card [OF h] by blast
  then have "map_option sent (S35_Reformat [replicate 79 97 @ [122]]) =
      Some [(replicate 79 97 @ [122]) @ [space] @ replicate 44 space]"
    by (simp only: v)
  with h show ?thesis by blast
qed

text \<open>
  With a card of 80 elements that ends in \<open>-1\<close> the line holds U+FFFD in the 80th
  place, so it is not the 80 card elements, a space and 44 spaces.
\<close>

theorem Reformat_one_card_counterexample:
  "length (replicate 79 (97::rune) @ [4294967295]) = 80
   \<and> map_option sent (S35_Reformat [replicate 79 97 @ [4294967295]]) =
      Some [(replicate 79 97 @ [65533]) @ [space] @ replicate 44 space]
   \<and> map_option sent (S35_Reformat [replicate 79 97 @ [4294967295]]) \<noteq>
      Some [(replicate 79 97 @ [4294967295]) @ [space] @ replicate 44 space]"
proof -
  have len: "length (replicate 79 (97::rune) @ [4294967295]) = 80"
    by simp
  have out: "map_option sent (S35_Reformat [replicate 79 97 @ [4294967295]]) =
      Some [(replicate 79 97 @ [65533]) @ [space] @ replicate 44 space]"
    by (simp only: Reformat_card_run [OF len] string_of_runes_ends_invalid) simp
  have ne: "Some [(replicate 79 97 @ [65533]) @ [space] @ replicate 44 space] \<noteq>
      Some [(replicate 79 (97::rune) @ [4294967295]) @ [space] @ replicate 44 space]"
    by simp
  from len out ne show ?thesis
    by (simp only: out) simp
qed

section \<open>Every transducer closes its output once\<close>

text \<open>
  C9. On every finite input, each of COPY, SQUASH (both variants), DISASSEMBLE and
  ASSEMBLE receives the whole input in order and then the report that the input is
  closed; its operations on the output are sends followed by exactly one close, which is
  its last operation, so nothing is sent after the close; and it does not panic.
\<close>

theorem transducers_close_once:
  "runs_to_close west (S31_COPY west)
   \<and> runs_to_close west (S32_SQUASH west)
   \<and> runs_to_close west (S32_SQUASH_EX west)
   \<and> runs_to_close cardfile (S33_DISASSEMBLE cardfile)
   \<and> runs_to_close X (S34_ASSEMBLE X)"
  using COPY_closes SQUASH_closes SQUASH_EX_closes DISASSEMBLE_closes ASSEMBLE_closes
  by blast

end
